theory Spec2Isabelle
  imports Complex_Main "HOL-Library.Multiset"
begin

section \<open>Data model\<close>

text \<open>
  The Python sources compute on IEEE doubles (and on Python integers that are
  converted to doubles). The embedding takes every coordinate, distance and
  time as a \<^typ>\<open>real\<close>: arithmetic is exact, rounding is not modelled.
  Where a double would become infinite or not-a-number (a division by zero that
  numpy does not raise on), the model returns an error value instead of HOL's
  \<open>x / 0 = 0\<close>.
\<close>

type_synonym point2d = "real \<times> real"
type_synonym stroke = "point2d list"
type_synonym waypoint3d = "real \<times> real \<times> real"

datatype error =
    ZeroDivisionError
  | NonFiniteError
  | IndexError

section \<open>path\_transitions.py: PathTransitionHandler\<close>

record PathTransitionHandler =
  write_altitude :: real
  transit_altitude :: real

definition PathTransitionHandler_init :: "real \<Rightarrow> real \<Rightarrow> PathTransitionHandler" where
  "PathTransitionHandler_init write_altitude_m transit_altitude_offset_m =
     \<lparr> write_altitude = write_altitude_m,
       transit_altitude = write_altitude_m + transit_altitude_offset_m \<rparr>"

subsection \<open>add\_transitions\<close>

text \<open>
  The loop over \<open>enumerate(paths)\<close>. The argument \<open>prev\<close> is \<open>paths[i-1]\<close>:
  \<open>None\<close> at \<open>i = 0\<close>, otherwise the path just before the current one in the input
  list, empty or not.
\<close>

fun add_transitions_loop :: "real \<Rightarrow> stroke option \<Rightarrow> stroke list \<Rightarrow> waypoint3d list" where
  "add_transitions_loop alt prev [] = []"
| "add_transitions_loop alt prev (path # rest) =
     (if path = [] then add_transitions_loop alt (Some path) rest
      else
        let start_idx =
              (case prev of
                 None \<Rightarrow> 0
               | Some pp \<Rightarrow>
                   if pp \<noteq> [] \<and> fst (last pp) = fst (hd path) \<and> snd (last pp) = snd (hd path)
                   then (1::nat) else 0)
        in map (\<lambda>(x, y). (x, y, alt)) (drop start_idx path)
           @ add_transitions_loop alt (Some path) rest)"

definition add_transitions :: "PathTransitionHandler \<Rightarrow> stroke list \<Rightarrow> waypoint3d list" where
  "add_transitions self paths =
     (if paths = [] then [] else add_transitions_loop (write_altitude self) None paths)"

subsection \<open>calculate\_mission\_time\<close>

record mission_time =
  total_time_s :: real
  total_time_formatted :: string
  total_distance_m :: real

definition dist3 :: "waypoint3d \<Rightarrow> waypoint3d \<Rightarrow> real" where
  "dist3 prev_wp curr_wp =
     (case prev_wp of (px, py, pz) \<Rightarrow> case curr_wp of (cx, cy, cz) \<Rightarrow>
        sqrt ((cx - px)\<^sup>2 + (cy - py)\<^sup>2 + (cz - pz)\<^sup>2))"

text \<open>
  One iteration of the loop body after \<open>dist\<close> (here \<open>seg_dist\<close>) is known. \<open>None\<close> is the value
  of a segment whose time is not finite: the cruise phase divides a positive
  numpy double by a zero cruise speed.
\<close>

definition segment_time :: "real \<Rightarrow> real \<Rightarrow> real \<Rightarrow> real option" where
  "segment_time flight_speed_m_s acceleration_m_s2 seg_dist =
     (let t_accel = flight_speed_m_s / acceleration_m_s2;
          d_accel = 0.5 * acceleration_m_s2 * t_accel\<^sup>2;
          t_decel = t_accel;
          d_decel = d_accel
      in if seg_dist \<le> d_accel + d_decel
         then Some (2 * sqrt (seg_dist / acceleration_m_s2))
         else
           let d_cruise = seg_dist - d_accel - d_decel in
           if flight_speed_m_s = 0 then None
           else
             let t_cruise = d_cruise / flight_speed_m_s
             in Some (t_accel + t_cruise + t_decel))"

text \<open>
  The loop \<open>for i in range(1, len(waypoints_3d))\<close>, with the accumulators
  \<open>total_time\<close> (\<open>None\<close> once it is infinite) and \<open>total_distance\<close>.
  \<open>flight_speed_m_s / acceleration_m_s2\<close> is a division of Python numbers and
  raises when the acceleration is zero.
\<close>

fun mission_loop ::
  "real \<Rightarrow> real \<Rightarrow> waypoint3d \<Rightarrow> waypoint3d list \<Rightarrow> real option \<times> real \<Rightarrow> error + (real option \<times> real)" where
  "mission_loop v a prev_wp [] acc = Inr acc"
| "mission_loop v a prev_wp (curr_wp # rest) (total_time, total_distance) =
     (let seg_dist = dist3 prev_wp curr_wp;
          total_distance' = total_distance + seg_dist
      in if a = 0 then Inl ZeroDivisionError
         else
           let total_time' =
                 (case (total_time, segment_time v a seg_dist) of
                    (Some t, Some s) \<Rightarrow> Some (t + s)
                  | _ \<Rightarrow> None)
           in mission_loop v a curr_wp rest (total_time', total_distance'))"

fun digit_char :: "nat \<Rightarrow> char" where
  "digit_char n = char_of (48 + n)"

fun string_of_nat :: "nat \<Rightarrow> string" where
  "string_of_nat n =
     (if n < 10 then [digit_char n]
      else string_of_nat (n div 10) @ [digit_char (n mod 10)])"

text \<open>
  \<open>total_time // 60\<close> and \<open>total_time % 60\<close> on doubles are the floor division
  and its remainder; \<open>int\<close> truncates the (already integral or non-negative)
  results.
\<close>

definition format_time :: "real \<Rightarrow> string" where
  "format_time total_time =
     (let minutes = \<lfloor>total_time / 60\<rfloor>;
          seconds = \<lfloor>total_time - 60 * of_int \<lfloor>total_time / 60\<rfloor>\<rfloor>
      in if minutes > 0
         then string_of_nat (nat minutes) @ ''m '' @ string_of_nat (nat seconds) @ ''s''
         else string_of_nat (nat seconds) @ ''s'')"

text \<open>
  When the total time is not finite, \<open>int(total_time // 60)\<close> raises; the
  model returns \<open>NonFiniteError\<close> for it.
\<close>

definition calculate_mission_time ::
  "waypoint3d list \<Rightarrow> real \<Rightarrow> real \<Rightarrow> error + mission_time" where
  "calculate_mission_time waypoints_3d flight_speed_m_s acceleration_m_s2 =
     (if length waypoints_3d \<le> 1
      then Inr \<lparr> total_time_s = 0, total_time_formatted = ''0s'', total_distance_m = 0 \<rparr>
      else
        case mission_loop flight_speed_m_s acceleration_m_s2
               (hd waypoints_3d) (tl waypoints_3d) (Some 0, 0) of
          Inl e \<Rightarrow> Inl e
        | Inr (None, total_distance) \<Rightarrow> Inl NonFiniteError
        | Inr (Some total_time, total_distance) \<Rightarrow>
            Inr \<lparr> total_time_s = total_time,
                  total_time_formatted = format_time total_time,
                  total_distance_m = total_distance \<rparr>)"

subsection \<open>optimize\_stroke\_order and \_nearest\_neighbor\_order\<close>

definition point_distance :: "point2d \<Rightarrow> point2d \<Rightarrow> real" where
  "point_distance p1 p2 = sqrt ((fst p1 - fst p2)\<^sup>2 + (snd p1 - snd p2)\<^sup>2)"

text \<open>
  \<open>min_dist\<close> starts at \<open>float('inf')\<close>: it is a \<^typ>\<open>real option\<close> with
  \<open>None\<close> for infinity, and \<open>less_than_min d min_dist\<close> is \<open>d < min_dist\<close>.
\<close>

fun less_than_min :: "real \<Rightarrow> real option \<Rightarrow> bool" where
  "less_than_min d None = True"
| "less_than_min d (Some m) = (d < m)"

text \<open>
  The inner loop \<open>for i, path in enumerate(remaining)\<close> on the state
  \<open>(min_dist, nearest_idx)\<close>. \<open>path[0]\<close> raises on an empty stroke.
\<close>

fun scan_remaining ::
  "point2d \<Rightarrow> nat \<Rightarrow> stroke list \<Rightarrow> real option \<times> int \<Rightarrow> error + (real option \<times> int)" where
  "scan_remaining current_end i [] st = Inr st"
| "scan_remaining current_end i (path # rest) (min_dist, nearest_idx) =
     (if path = [] then Inl IndexError
      else
        let d = point_distance current_end (hd path);
            dist_reverse = point_distance current_end (last path)
        in if dist_reverse < d
           then
             (let d = dist_reverse
              in if less_than_min d min_dist
                 then scan_remaining current_end (Suc i) rest (Some d, - int i - 1)
                 else scan_remaining current_end (Suc i) rest (min_dist, nearest_idx))
           else
             (if less_than_min d min_dist
              then scan_remaining current_end (Suc i) rest (Some d, int i)
              else scan_remaining current_end (Suc i) rest (min_dist, nearest_idx)))"

definition pop :: "nat \<Rightarrow> 'a list \<Rightarrow> 'a list" where
  "pop idx xs = take idx xs @ drop (Suc idx) xs"

text \<open>
  The loop \<open>while remaining\<close>. \<open>ordered\<close> is never empty here; \<open>ordered[-1][-1]\<close>
  raises when the last placed stroke is empty, and \<open>remaining[path_idx]\<close> raises
  out of range.
\<close>

function nearest_loop :: "stroke list \<Rightarrow> stroke list \<Rightarrow> error + stroke list" where
  "nearest_loop ordered remaining =
     (if remaining = [] then Inr ordered
      else if last ordered = [] then Inl IndexError
      else
        let current_end = last (last ordered)
        in case scan_remaining current_end 0 remaining (None, 0) of
             Inl e \<Rightarrow> Inl e
           | Inr (min_dist, nearest_idx) \<Rightarrow>
               if nearest_idx < 0
               then
                 (let path_idx = nat (- nearest_idx - 1)
                  in if path_idx < length remaining
                     then nearest_loop (ordered @ [rev (remaining ! path_idx)])
                            (pop path_idx remaining)
                     else Inl IndexError)
               else
                 (if nat nearest_idx < length remaining
                  then nearest_loop (ordered @ [remaining ! nat nearest_idx])
                         (pop (nat nearest_idx) remaining)
                  else Inl IndexError))"
  by pat_completeness auto
termination
  by (relation "measure (\<lambda>(ordered, remaining). length remaining)")
     (auto simp add: pop_def)

definition nearest_neighbor_order :: "stroke list \<Rightarrow> error + stroke list" where
  "nearest_neighbor_order paths =
     (if paths = [] then Inr [] else nearest_loop [hd paths] (tl paths))"

definition optimize_stroke_order :: "stroke list \<Rightarrow> string \<Rightarrow> error + stroke list" where
  "optimize_stroke_order paths method =
     (if method = ''original'' \<or> length paths \<le> 1 then Inr paths
      else if method = ''nearest_neighbor'' then nearest_neighbor_order paths
      else Inr paths)"

subsection \<open>The ordering as the specification words it\<close>

text \<open>
  The distance from the current end point to the nearest endpoint of a
  candidate stroke, which may be traversed from either end.
\<close>

definition endpoint_distance :: "point2d \<Rightarrow> stroke \<Rightarrow> real" where
  "endpoint_distance current_end s =
     min (point_distance current_end (hd s)) (point_distance current_end (last s))"

text \<open>
  The index of the first-encountered element of least value: the head, when
  no later element is smaller, otherwise the choice among the later ones.
\<close>

fun first_nearest :: "('a \<Rightarrow> real) \<Rightarrow> 'a list \<Rightarrow> nat" where
  "first_nearest f [] = 0"
| "first_nearest f (x # xs) =
     (if \<forall>y \<in> set xs. f x \<le> f y then 0 else Suc (first_nearest f xs))"

function order_strokes_loop :: "stroke list \<Rightarrow> stroke list \<Rightarrow> stroke list" where
  "order_strokes_loop placed remaining =
     (if remaining = [] then placed
      else
        let current_end = last (last placed);
            k = first_nearest (endpoint_distance current_end) remaining;
            s = remaining ! k;
            s' = (if point_distance current_end (last s) < point_distance current_end (hd s)
                  then rev s else s)
        in order_strokes_loop (placed @ [s']) (pop k remaining))"
  by pat_completeness auto
termination
proof (relation "measure (\<lambda>(placed, remaining). length remaining)", goal_cases)
  case 1
  show ?case by simp
next
  case (2 placed remaining current_end k s s')
  have "xs \<noteq> [] \<Longrightarrow> first_nearest g xs < length xs" for g :: "stroke \<Rightarrow> real" and xs
  proof (induction xs)
    case Nil
    then show ?case by simp
  next
    case (Cons x xs)
    then show ?case by (cases "xs = []") auto
  qed
  with 2 have "k < length remaining" by simp
  then show ?case by (simp add: pop_def)
qed

definition order_strokes :: "stroke list \<Rightarrow> stroke list" where
  "order_strokes strokes =
     (if strokes = [] then [] else order_strokes_loop [hd strokes] (tl strokes))"

section \<open>path\_simplifier.py: PathSimplifier\<close>

record PathSimplifier =
  epsilon :: real
  letter_height_m :: real

text \<open>\<open>epsilon=None\<close> is \<open>None\<close>; any other value is stored as it is.\<close>

definition PathSimplifier_init :: "real option \<Rightarrow> real \<Rightarrow> PathSimplifier" where
  "PathSimplifier_init eps letter_height =
     \<lparr> epsilon = (case eps of None \<Rightarrow> letter_height * 0.02 | Some e \<Rightarrow> e),
       letter_height_m = letter_height \<rparr>"

subsection \<open>simplify\_coords\<close>

text \<open>
  Modelled from the spec: \<open>simplify_coords\<close> is imported from the package
  \<open>simplification.cutil\<close>, whose code is not part of the sources. The
  specification (section 4.1) words it as a Douglas-Peucker reduction: find the
  point of maximum perpendicular distance from the line joining the first and
  the last point of the (sub)sequence; if that distance exceeds epsilon, keep
  the point and process both halves; otherwise the (sub)sequence collapses to
  its endpoints.
\<close>

text \<open>
  Modelled from the spec: the perpendicular distance of \<open>p\<close> from the line
  through \<open>a\<close> and \<open>b\<close>; when the two coincide it is the distance from \<open>a\<close>.
\<close>

definition perpendicular_distance :: "point2d \<Rightarrow> point2d \<Rightarrow> point2d \<Rightarrow> real" where
  "perpendicular_distance p a b =
     (let dx = fst b - fst a; dy = snd b - snd a
      in if dx = 0 \<and> dy = 0
         then sqrt ((fst p - fst a)\<^sup>2 + (snd p - snd a)\<^sup>2)
         else \<bar>dx * (snd a - snd p) - (fst a - fst p) * dy\<bar> / sqrt (dx\<^sup>2 + dy\<^sup>2))"

text \<open>
  Modelled from the spec: the index of the point of maximum distance, the
  first one when several points are equally far.
\<close>

fun first_farthest :: "('a \<Rightarrow> real) \<Rightarrow> 'a list \<Rightarrow> nat" where
  "first_farthest f [] = 0"
| "first_farthest f (x # xs) =
     (if \<forall>y \<in> set xs. f y \<le> f x then 0 else Suc (first_farthest f xs))"

text \<open>
  Modelled from the spec: the interior points that the reduction keeps between
  the endpoints \<open>a\<close> and \<open>b\<close>, where \<open>mid\<close> are the points strictly between
  them.
\<close>

function douglas_peucker :: "real \<Rightarrow> point2d \<Rightarrow> point2d list \<Rightarrow> point2d \<Rightarrow> point2d list" where
  "douglas_peucker eps a mid b =
     (if mid = [] then []
      else
        let k = first_farthest (\<lambda>p. perpendicular_distance p a b) mid;
            c = mid ! k
        in if perpendicular_distance c a b > eps
           then douglas_peucker eps a (take k mid) c @ [c]
                @ douglas_peucker eps c (drop (Suc k) mid) b
           else [])"
  by pat_completeness auto
termination
proof (relation "measure (\<lambda>(eps, a, mid, b). length mid)", goal_cases)
  case 1
  show ?case by simp
next
  case (2 eps a mid b k c)
  have "xs \<noteq> [] \<Longrightarrow> first_farthest g xs < length xs" for g :: "point2d \<Rightarrow> real" and xs
  proof (induction xs)
    case Nil
    then show ?case by simp
  next
    case (Cons x xs)
    then show ?case by (cases "xs = []") auto
  qed
  with 2 show ?case by simp
next
  case (3 eps a mid b k c)
  then show ?case by simp
qed

text \<open>
  Modelled from the spec: the reduction of a whole sequence; its first and last
  point are the endpoints.
\<close>

definition simplify_coords :: "point2d list \<Rightarrow> real \<Rightarrow> point2d list" where
  "simplify_coords points eps =
     (if length points < 3 then points
      else hd points # douglas_peucker eps (hd points) (butlast (tl points)) (last points)
           @ [last points])"

subsection \<open>simplify\_path\<close>

definition simplify_path :: "PathSimplifier \<Rightarrow> point2d list \<Rightarrow> point2d list" where
  "simplify_path self points =
     (if length points < 3 then points
      else simplify_coords points (epsilon self))"

subsection \<open>\_detect\_corners\<close>

definition vec_norm :: "point2d \<Rightarrow> real" where
  "vec_norm v = sqrt ((fst v)\<^sup>2 + (snd v)\<^sup>2)"

definition vec_dot :: "point2d \<Rightarrow> point2d \<Rightarrow> real" where
  "vec_dot v w = fst v * fst w + snd v * snd w"

definition clip :: "real \<Rightarrow> real \<Rightarrow> real \<Rightarrow> real" where
  "clip x lo hi = min (max x lo) hi"

definition degrees :: "real \<Rightarrow> real" where
  "degrees r = r * (180 / pi)"

text \<open>
  The body of the loop at index \<open>i\<close>, for the points \<open>p1 = points[i-1]\<close>,
  \<open>p2 = points[i]\<close>, \<open>p3 = points[i+1]\<close>: \<open>None\<close> when the iteration is left
  by \<open>continue\<close>, otherwise \<open>angle_deg\<close>.
\<close>

definition angle_deg_at :: "point2d \<Rightarrow> point2d \<Rightarrow> point2d \<Rightarrow> real option" where
  "angle_deg_at p1 p2 p3 =
     (let v1 = (fst p1 - fst p2, snd p1 - snd p2);
          v2 = (fst p3 - fst p2, snd p3 - snd p2);
          v1_norm = vec_norm v1;
          v2_norm = vec_norm v2
      in if v1_norm = 0 \<or> v2_norm = 0 then None
         else
           let cos_angle = vec_dot v1 v2 / (v1_norm * v2_norm);
               cos_angle = clip cos_angle (-1) 1
           in Some (degrees (arccos cos_angle)))"

definition detect_corners :: "point2d list \<Rightarrow> real \<Rightarrow> nat list" where
  "detect_corners points angle_threshold =
     filter (\<lambda>i. case angle_deg_at (points ! (i - 1)) (points ! i) (points ! (i + 1)) of
                   None \<Rightarrow> False
                 | Some angle_deg \<Rightarrow> angle_deg > angle_threshold)
       [1 ..< length points - 1]"

section \<open>coord\_transformer.py: CoordinateTransformer\<close>

record CoordinateTransformer =
  home_lat :: real
  home_lon :: real
  home_alt :: real
  rotation_deg :: real
  cos_r :: real
  sin_r :: real

definition radians :: "real \<Rightarrow> real" where
  "radians d = d * (pi / 180)"

definition CoordinateTransformer_init :: "real \<Rightarrow> real \<Rightarrow> real \<Rightarrow> real \<Rightarrow> CoordinateTransformer" where
  "CoordinateTransformer_init lat lon alt rot =
     (let rad = radians rot
      in \<lparr> home_lat = lat, home_lon = lon, home_alt = alt, rotation_deg = rot,
            cos_r = cos rad, sin_r = sin rad \<rparr>)"

text \<open>
  \<open>pm.enu2geodetic\<close> belongs to the package pymap3d; it is a parameter of the
  model, a function of \<open>e\<close>, \<open>n\<close>, \<open>u\<close>, \<open>lat0\<close>, \<open>lon0\<close>, \<open>h0\<close> that returns
  latitude, longitude and altitude.
\<close>

type_synonym enu2geodetic_fn =
  "real \<Rightarrow> real \<Rightarrow> real \<Rightarrow> real \<Rightarrow> real \<Rightarrow> real \<Rightarrow> real \<times> real \<times> real"

definition local_to_gps ::
  "enu2geodetic_fn \<Rightarrow> CoordinateTransformer \<Rightarrow> real \<Rightarrow> real \<Rightarrow> real \<Rightarrow> real \<times> real \<times> real" where
  "local_to_gps enu2geodetic self x y altitude =
     (let (rotated_x, rotated_y) =
            (if rotation_deg self \<noteq> 0
             then (x * cos_r self - y * sin_r self, x * sin_r self + y * cos_r self)
             else (x, y));
          (lat, lon, alt_msl) =
            enu2geodetic rotated_x rotated_y altitude (home_lat self) (home_lon self) (home_alt self);
          alt_relative = altitude
      in (lat, lon, alt_relative))"

section \<open>The scenario of the specification\<close>

text \<open>The three strokes of the module's self-test, \<open>test_paths\<close>.\<close>

definition test_paths :: "stroke list" where
  "test_paths = [[(0, 0), (10, 0), (10, 10)], [(20, 0), (20, 10), (30, 10)], [(40, 0), (40, 10)]]"

section \<open>Properties of the kinematic time estimate\<close>

declare string_of_nat.simps [simp del]

lemma sqrt_100: "sqrt 100 = 10"
  using real_sqrt_abs [of 10] by simp

lemma sqrt_200: "sqrt 200 = 10 * sqrt 2"
proof -
  have "sqrt 200 = sqrt (100 * 2)" by simp
  also have "\<dots> = sqrt 100 * sqrt 2" by (rule real_sqrt_mult)
  finally show ?thesis by (simp add: sqrt_100)
qed

lemma sqrt2_bounds: "1.41 < sqrt 2" "sqrt 2 < 1.42"
  by (rule real_less_rsqrt, simp add: power2_eq_square)
     (rule real_less_lsqrt, simp_all add: power2_eq_square)

lemma dist3_nonneg: "0 \<le> dist3 p q"
  by (cases p, cases q) (simp add: dist3_def)

lemma format_time_seconds:
  assumes "0 \<le> t" "t < 60"
  shows "format_time t = string_of_nat (nat \<lfloor>t\<rfloor>) @ ''s''"
proof -
  have f1: "\<lfloor>t / 60\<rfloor> = 0" using assms by (simp add: floor_eq_iff)
  show ?thesis unfolding format_time_def Let_def f1 by simp
qed

lemma test_paths_waypoints:
  "add_transitions (PathTransitionHandler_init 30 10) test_paths =
     [(0, 0, 30), (10, 0, 30), (10, 10, 30), (20, 0, 30), (20, 10, 30), (30, 10, 30),
      (40, 0, 30), (40, 10, 30)]"
  by (simp add: add_transitions_def PathTransitionHandler_init_def test_paths_def)

lemma segment_time_3_3: "3 < d \<Longrightarrow> segment_time 3 3 d = Some (d / 3 + 1)"
  by (simp add: segment_time_def Let_def power2_eq_square field_simps)

lemma test_paths_loop:
  "mission_loop 3 3 (0, 0, 30)
     [(10, 0, 30), (10, 10, 30), (20, 0, 30), (20, 10, 30), (30, 10, 30), (40, 0, 30), (40, 10, 30)]
     (Some 0, 0)
   = Inr (Some (7 + (50 + 20 * sqrt 2) / 3), 50 + 20 * sqrt 2)"
  using sqrt2_bounds
  by (simp add: dist3_def sqrt_100 sqrt_200 segment_time_3_3 Let_def field_simps)

lemma test_paths_format: "format_time (7 + (50 + 20 * sqrt 2) / 3) = ''33s''"
proof -
  let ?t = "7 + (50 + 20 * sqrt 2) / 3"
  have b: "33 \<le> ?t" "?t < 34" using sqrt2_bounds by simp_all
  have f2: "\<lfloor>?t\<rfloor> = 33" using b by (simp add: floor_eq_iff)
  have s33: "string_of_nat 33 = ''33''" by code_simp
  have "format_time ?t = string_of_nat (nat \<lfloor>?t\<rfloor>) @ ''s''"
    using b by (intro format_time_seconds) simp_all
  also have "\<dots> = string_of_nat 33 @ ''s''" by (simp only: f2) simp
  finally show ?thesis by (simp only: s33) simp
qed

lemma test_paths_mission_time:
  "calculate_mission_time (add_transitions (PathTransitionHandler_init 30 10) test_paths) 3 3 =
     Inr \<lparr> total_time_s = 7 + (50 + 20 * sqrt 2) / 3,
           total_time_formatted = ''33s'',
           total_distance_m = 50 + 20 * sqrt 2 \<rparr>"
  unfolding test_paths_waypoints calculate_mission_time_def
  by (simp add: test_paths_loop test_paths_format del: mission_loop.simps)

text \<open>
  C1, as stated, fails. On the three test strokes at write altitude 30 the
  assembled path has 8 waypoints, all at altitude 30, and the time is positive,
  but the total distance is not within one metre of 61.2: the path runs through
  the two gaps between the strokes as well, which makes it longer than 78 m.
\<close>

theorem scenario_distance_counterexample:
  "\<not> (length (add_transitions (PathTransitionHandler_init 30 10) test_paths) = 8
      \<and> map (snd \<circ> snd) (add_transitions (PathTransitionHandler_init 30 10) test_paths)
          = replicate 8 30
      \<and> \<bar>total_distance_m (projr (calculate_mission_time
             (add_transitions (PathTransitionHandler_init 30 10) test_paths) 3 3)) - 61.2\<bar> \<le> 1
      \<and> 0 < total_time_s (projr (calculate_mission_time
             (add_transitions (PathTransitionHandler_init 30 10) test_paths) 3 3)))"
proof -
  have "78 < 50 + 20 * sqrt 2" using sqrt2_bounds by simp
  then have "\<not> \<bar>(50 + 20 * sqrt 2) - 61.2\<bar> \<le> 1" by simp
  then show ?thesis by (simp only: test_paths_mission_time) simp
qed

text \<open>
  C1, amended. On the three test strokes at write altitude 30 the assembled path
  is the 8 points of the strokes in order, each at altitude 30; the estimate at
  cruise speed 3 and acceleration 3 returns the total distance
  \<open>50 + 20 * sqrt 2\<close>, between 78.2 and 78.4 metres, and the total time
  \<open>7 + (50 + 20 * sqrt 2) / 3\<close>, which is positive (about 33 seconds).
\<close>

theorem scenario_assembled_path_and_time:
  "add_transitions (PathTransitionHandler_init 30 10) test_paths =
     [(0, 0, 30), (10, 0, 30), (10, 10, 30), (20, 0, 30), (20, 10, 30), (30, 10, 30),
      (40, 0, 30), (40, 10, 30)]
   \<and> length (add_transitions (PathTransitionHandler_init 30 10) test_paths) = 8
   \<and> map (snd \<circ> snd) (add_transitions (PathTransitionHandler_init 30 10) test_paths)
       = replicate 8 30
   \<and> calculate_mission_time (add_transitions (PathTransitionHandler_init 30 10) test_paths) 3 3 =
       Inr \<lparr> total_time_s = 7 + (50 + 20 * sqrt 2) / 3,
             total_time_formatted = ''33s'',
             total_distance_m = 50 + 20 * sqrt 2 \<rparr>
   \<and> 78.2 < 50 + 20 * sqrt 2 \<and> 50 + 20 * sqrt 2 < 78.4
   \<and> 0 < 7 + (50 + 20 * sqrt 2) / 3"
proof -
  have r8: "replicate 8 (30::real) = [30, 30, 30, 30, 30, 30, 30, 30]"
    by (simp add: numeral_eq_Suc)
  have b: "78.2 < 50 + 20 * sqrt 2" "50 + 20 * sqrt 2 < 78.4"
    using sqrt2_bounds by simp_all
  have p: "0 < 7 + (50 + 20 * sqrt 2) / 3"
    by (intro add_pos_nonneg divide_nonneg_pos add_nonneg_nonneg mult_nonneg_nonneg) simp_all
  show ?thesis
    using b p by (simp add: test_paths_mission_time) (simp add: test_paths_waypoints r8)
qed

lemma segment_time_boundary:
  assumes "0 < v" "0 < a"
  shows "segment_time v a (v\<^sup>2 / a) = Some (2 * (v / a))"
proof -
  have le: "v\<^sup>2 / a \<le> 0.5 * a * (v / a)\<^sup>2 + 0.5 * a * (v / a)\<^sup>2"
    using assms by (simp add: power2_eq_square field_simps)
  have "sqrt (v\<^sup>2 / a / a) = sqrt ((v / a)\<^sup>2)"
    by (simp add: power2_eq_square)
  also have "\<dots> = v / a" using assms by simp
  finally have s: "sqrt (v\<^sup>2 / a / a) = v / a" .
  show ?thesis unfolding segment_time_def Let_def by (simp only: le if_True s)
qed

lemma trapezoid_at_boundary:
  assumes "0 < (v::real)" "0 < a"
  shows "v / a + (v\<^sup>2 / a - 0.5 * a * (v / a)\<^sup>2 - 0.5 * a * (v / a)\<^sup>2) / v + v / a
         = 2 * (v / a)"
  using assms by (simp add: power2_eq_square field_simps)

text \<open>
  C4. For a cruise speed \<open>v > 0\<close> and an acceleration \<open>a > 0\<close>, the estimate on a
  path of two waypoints at distance \<open>v\<^sup>2 / a\<close> (the sum of the acceleration and the
  deceleration distance) returns the total time \<open>2 * (v / a)\<close>; the segment takes
  the triangular branch, and the trapezoidal formula gives the same value there.
  The equality is exact on the reals, so it holds within any tolerance.
\<close>

theorem mission_time_at_regime_boundary:
  assumes "0 < v" and "0 < a" and "dist3 p q = v\<^sup>2 / a"
  shows "calculate_mission_time [p, q] v a =
           Inr \<lparr> total_time_s = 2 * (v / a),
                 total_time_formatted = format_time (2 * (v / a)),
                 total_distance_m = v\<^sup>2 / a \<rparr>
         \<and> \<bar>total_time_s (projr (calculate_mission_time [p, q] v a)) - 2 * (v / a)\<bar> \<le> 1 / 10 ^ 6
         \<and> segment_time v a (v\<^sup>2 / a) = Some (2 * sqrt (v\<^sup>2 / a / a))
         \<and> 2 * sqrt (v\<^sup>2 / a / a)
             = v / a + (v\<^sup>2 / a - 0.5 * a * (v / a)\<^sup>2 - 0.5 * a * (v / a)\<^sup>2) / v + v / a"
proof -
  have c: "calculate_mission_time [p, q] v a =
           Inr \<lparr> total_time_s = 2 * (v / a),
                 total_time_formatted = format_time (2 * (v / a)),
                 total_distance_m = v\<^sup>2 / a \<rparr>"
    using assms by (simp add: calculate_mission_time_def segment_time_boundary Let_def)
  have "sqrt (v\<^sup>2 / a / a) = sqrt ((v / a)\<^sup>2)"
    by (simp add: power2_eq_square)
  also have "\<dots> = v / a" using assms by simp
  finally have s: "sqrt (v\<^sup>2 / a / a) = v / a" .
  have t: "segment_time v a (v\<^sup>2 / a) = Some (2 * sqrt (v\<^sup>2 / a / a))"
    using segment_time_boundary [OF assms(1,2)] by (simp only: s)
  have e: "2 * sqrt (v\<^sup>2 / a / a)
             = v / a + (v\<^sup>2 / a - 0.5 * a * (v / a)\<^sup>2 - 0.5 * a * (v / a)\<^sup>2) / v + v / a"
    using trapezoid_at_boundary [OF assms(1,2)] by (simp only: s)
  have w: "\<bar>total_time_s (projr (calculate_mission_time [p, q] v a)) - 2 * (v / a)\<bar> \<le> 1 / 10 ^ 6"
    by (simp only: c) simp
  from c w t e show ?thesis by blast
qed

theorem mission_time_at_regime_boundary_witness:
  "(0::real) < 3 \<and> dist3 (0, 0, 0) (3, 0, 0) = 3\<^sup>2 / 3
   \<and> calculate_mission_time [(0, 0, 0), (3, 0, 0)] 3 3 =
       Inr \<lparr> total_time_s = 2, total_time_formatted = ''2s'', total_distance_m = 3 \<rparr>"
proof -
  have "sqrt 9 = 3" using real_sqrt_abs [of 3] by simp
  then have d: "dist3 (0, 0, 0) (3, 0, 0) = 3\<^sup>2 / 3" by (simp add: dist3_def)
  have s2: "string_of_nat 2 = ''2''" by code_simp
  have "format_time 2 = string_of_nat (nat \<lfloor>2::real\<rfloor>) @ ''s''"
    by (intro format_time_seconds) simp_all
  then have f: "format_time 2 = ''2s''" by (simp add: s2)
  from mission_time_at_regime_boundary [OF _ _ d] d f show ?thesis by simp
qed

section \<open>Invalid numeric configuration\<close>

lemma segment_time_negative_acceleration:
  assumes "a < 0" "v \<noteq> 0" "0 \<le> d"
  shows "segment_time v a d = Some (d / v + v / a)"
proof -
  have "0.5 * a * (v / a)\<^sup>2 + 0.5 * a * (v / a)\<^sup>2 = v\<^sup>2 / a"
    using assms by (simp add: power2_eq_square field_simps)
  moreover have "v\<^sup>2 / a < 0"
    using assms by (simp add: field_simps)
  ultimately have "\<not> d \<le> 0.5 * a * (v / a)\<^sup>2 + 0.5 * a * (v / a)\<^sup>2"
    using assms by linarith
  then show ?thesis unfolding segment_time_def Let_def using assms
    by (simp add: power2_eq_square field_simps)
qed

lemma mission_loop_negative_acceleration:
  assumes "a < 0" "v \<noteq> 0"
  shows "\<exists>t d. mission_loop v a p ws (Some t0, d0) = Inr (Some t, d)"
  using assms
proof (induction ws arbitrary: p t0 d0)
  case Nil
  then show ?case by simp
next
  case (Cons w ws)
  then show ?case
    by (simp add: Let_def segment_time_negative_acceleration dist3_nonneg)
qed

lemma mission_time_negative_acceleration:
  assumes "a < 0" "v \<noteq> 0"
  shows "\<exists>r. calculate_mission_time wps v a = Inr r"
proof (cases "length wps \<le> 1")
  case True
  then show ?thesis by (simp add: calculate_mission_time_def)
next
  case False
  from mission_loop_negative_acceleration [OF assms, of "hd wps" "tl wps" 0 0]
  obtain t d where "mission_loop v a (hd wps) (tl wps) (Some 0, 0) = Inr (Some t, d)"
    by blast
  with False show ?thesis by (simp add: calculate_mission_time_def)
qed

lemma mission_time_3_4_minus_3:
  "calculate_mission_time [(0, 0, 0), (3, 4, 0)] 3 (- 3) =
     Inr \<lparr> total_time_s = 2 / 3, total_time_formatted = ''0s'', total_distance_m = 5 \<rparr>"
proof -
  have "sqrt 25 = 5" using real_sqrt_abs [of 5] by simp
  then have d: "dist3 (0, 0, 0) (3, 4, 0) = 5" by (simp add: dist3_def)
  have s: "segment_time 3 (- 3) 5 = Some (2 / 3)"
    using segment_time_negative_acceleration [of "- 3" 3 5] by simp
  have z: "string_of_nat 0 = ''0''" by code_simp
  have f: "format_time (2 / 3) = ''0s''"
    unfolding format_time_def Let_def by (simp add: floor_eq_iff z)
  show ?thesis by (simp add: calculate_mission_time_def d s f)
qed

text \<open>
  C3, as stated, fails. With the acceleration \<open>-3\<close> the time estimate raises
  nothing: on the segment from \<open>(0, 0, 0)\<close> to \<open>(3, 4, 0)\<close> at cruise speed 3 it
  returns the total time \<open>2/3\<close>. A simplifier constructed with epsilon \<open>-1\<close> is
  constructed, with epsilon \<open>-1\<close>.
\<close>

theorem negative_configuration_counterexample:
  "\<not> isl (calculate_mission_time [(0, 0, 0), (3, 4, 0)] 3 (- 3))
   \<and> calculate_mission_time [(0, 0, 0), (3, 4, 0)] 3 (- 3) =
       Inr \<lparr> total_time_s = 2 / 3, total_time_formatted = ''0s'', total_distance_m = 5 \<rparr>
   \<and> PathSimplifier_init (Some (- 1)) 20 = \<lparr> epsilon = - 1, letter_height_m = 20 \<rparr>"
  by (simp add: mission_time_3_4_minus_3 PathSimplifier_init_def)

text \<open>
  C3, amended. No operation checks its numeric configuration. With a negative
  acceleration and a cruise speed other than zero, the time estimate raises
  nothing and returns a result, in which a segment of length \<open>d\<close> takes the time
  \<open>d / v + v / a\<close>; a simplifier constructed with a negative epsilon stores that
  epsilon.
\<close>

theorem negative_configuration_is_accepted:
  assumes "a < 0" and "v \<noteq> 0" and "eps < 0"
  shows "\<not> isl (calculate_mission_time wps v a)
         \<and> (0 \<le> d \<longrightarrow> segment_time v a d = Some (d / v + v / a))
         \<and> PathSimplifier_init (Some eps) h = \<lparr> epsilon = eps, letter_height_m = h \<rparr>"
proof -
  from mission_time_negative_acceleration [OF assms(1,2)]
  obtain r where "calculate_mission_time wps v a = Inr r" by blast
  then have "\<not> isl (calculate_mission_time wps v a)" by simp
  moreover have "0 \<le> d \<longrightarrow> segment_time v a d = Some (d / v + v / a)"
    using segment_time_negative_acceleration [OF assms(1,2)] by blast
  moreover have "PathSimplifier_init (Some eps) h = \<lparr> epsilon = eps, letter_height_m = h \<rparr>"
    by (simp add: PathSimplifier_init_def)
  ultimately show ?thesis by blast
qed

theorem negative_configuration_is_accepted_witness:
  "(- 2 :: real) < 0 \<and> (4 :: real) \<noteq> 0 \<and> (- 5 :: real) < 0 \<and> (0 :: real) \<le> 6
   \<and> \<not> isl (calculate_mission_time [(0, 0, 0), (0, 6, 0), (6, 6, 0)] 4 (- 2))
   \<and> segment_time 4 (- 2) 6 = Some (- 1 / 2)
   \<and> PathSimplifier_init (Some (- 5)) 10 = \<lparr> epsilon = - 5, letter_height_m = 10 \<rparr>"
  using negative_configuration_is_accepted
          [of "- 2" 4 "- 5" "[(0, 0, 0), (0, 6, 0), (6, 6, 0)]" 6 10]
  by simp

section \<open>Rotation by zero degrees\<close>

text \<open>
  C9. A transformer constructed with rotation 0 maps every local point
  \<open>(x, y)\<close> and relative altitude to the latitude and longitude that the
  conversion from ENU gives for the unrotated \<open>(x, y)\<close>, with the relative
  altitude as third component; and the formula of the rotation branch, taken
  with the sine and cosine of that transformer, gives \<open>(x, y)\<close> as well. Both
  are exact equalities, whatever the conversion from ENU is.
\<close>

theorem local_to_gps_rotation_zero:
  "local_to_gps enu (CoordinateTransformer_init lat lon alt 0) x y altitude =
     (fst (enu x y altitude lat lon alt), fst (snd (enu x y altitude lat lon alt)), altitude)
   \<and> (x * cos_r (CoordinateTransformer_init lat lon alt 0)
        - y * sin_r (CoordinateTransformer_init lat lon alt 0),
      x * sin_r (CoordinateTransformer_init lat lon alt 0)
        + y * cos_r (CoordinateTransformer_init lat lon alt 0)) = (x, y)"
  by (simp add: local_to_gps_def CoordinateTransformer_init_def radians_def Let_def
           split: prod.splits)

section \<open>Corner detection\<close>

lemma angle_deg_at_straight: "angle_deg_at (0, 0) (1, 0) (2, 0) = Some 180"
  by (simp add: angle_deg_at_def vec_norm_def vec_dot_def clip_def degrees_def Let_def)

lemma angle_deg_at_reversal: "angle_deg_at (0, 0) (1, 0) (0, 0) = Some 0"
  by (simp add: angle_deg_at_def vec_norm_def vec_dot_def clip_def degrees_def Let_def)

text \<open>
  C2, the code at the failing inputs. The angle that the loop compares with the
  threshold is the angle between the two vectors that leave the point, which is
  180 degrees where the path goes straight on and 0 where it turns back. With
  the threshold 30, the middle point of the straight path
  \<open>(0,0), (1,0), (2,0)\<close> is reported as a corner, and the middle point of the
  path \<open>(0,0), (1,0), (0,0)\<close>, which reverses its direction, is not.
\<close>

theorem detect_corners_reports_straight_point:
  "angle_deg_at (0, 0) (1, 0) (2, 0) = Some 180
   \<and> detect_corners [(0, 0), (1, 0), (2, 0)] 30 = [1]
   \<and> angle_deg_at (0, 0) (1, 0) (0, 0) = Some 0
   \<and> detect_corners [(0, 0), (1, 0), (0, 0)] 30 = []"
  by (simp add: detect_corners_def angle_deg_at_straight angle_deg_at_reversal)

section \<open>Properties of the simplifier\<close>

declare douglas_peucker.simps [simp del]

lemma first_farthest_less: "xs \<noteq> [] \<Longrightarrow> first_farthest f xs < length xs"
proof (induction xs)
  case Nil
  then show ?case by simp
next
  case (Cons x xs)
  then show ?case by (cases "xs = []") auto
qed

lemma first_farthest_max:
  "xs \<noteq> [] \<Longrightarrow> y \<in> set xs \<Longrightarrow> f y \<le> f (xs ! first_farthest f xs)"
proof (induction xs arbitrary: y)
  case Nil
  then show ?case by simp
next
  case (Cons x xs)
  show ?case
  proof (cases "\<forall>z \<in> set xs. f z \<le> f x")
    case True
    with Cons.prems show ?thesis by auto
  next
    case False
    then obtain z where z: "z \<in> set xs" "f x < f z" by force
    then have ne: "xs \<noteq> []" by auto
    have "f z \<le> f (xs ! first_farthest f xs)" using Cons.IH [OF ne z(1)] .
    with z have "f x \<le> f (xs ! first_farthest f xs)" by simp
    moreover have "y \<in> set xs \<Longrightarrow> f y \<le> f (xs ! first_farthest f xs)"
      using Cons.IH [OF ne] .
    ultimately show ?thesis using False Cons.prems by auto
  qed
qed

lemma first_farthest_before:
  "xs \<noteq> [] \<Longrightarrow> y \<in> set (take (first_farthest f xs) xs) \<Longrightarrow>
     f y < f (xs ! first_farthest f xs)"
proof (induction xs arbitrary: y)
  case Nil
  then show ?case by simp
next
  case (Cons x xs)
  show ?case
  proof (cases "\<forall>z \<in> set xs. f z \<le> f x")
    case True
    with Cons.prems show ?thesis by simp
  next
    case False
    then obtain z where z: "z \<in> set xs" "f x < f z" by force
    then have ne: "xs \<noteq> []" by auto
    have "f z \<le> f (xs ! first_farthest f xs)" using first_farthest_max [OF ne z(1)] .
    with z have "f x < f (xs ! first_farthest f xs)" by simp
    moreover have "y \<in> set (take (first_farthest f xs) xs) \<Longrightarrow> f y < f (xs ! first_farthest f xs)"
      using Cons.IH [OF ne] .
    moreover have ff: "first_farthest f (x # xs) = Suc (first_farthest f xs)"
      using False by simp
    moreover have "y = x \<or> y \<in> set (take (first_farthest f xs) xs)"
      using Cons.prems(2) unfolding ff by simp
    ultimately show ?thesis by auto
  qed
qed

lemma first_farthest_unique:
  "\<forall>y \<in> set xs. f y < f c \<Longrightarrow> \<forall>y \<in> set ys. f y \<le> f c \<Longrightarrow>
     first_farthest f (xs @ c # ys) = length xs"
proof (induction xs)
  case Nil
  then show ?case by simp
next
  case (Cons x xs)
  then have "f x < f c" by simp
  then have "\<not> (\<forall>y \<in> set (xs @ c # ys). f y \<le> f x)" by force
  with Cons show ?case by simp
qed

lemma douglas_peucker_Nil [simp]: "douglas_peucker eps a [] b = []"
  by (simp add: douglas_peucker.simps)

lemma douglas_peucker_subset: "set (douglas_peucker eps a mid b) \<subseteq> set mid"
proof (induction eps a mid b rule: douglas_peucker.induct)
  case (1 eps a mid b)
  show ?case
  proof (cases "mid = []")
    case True
    then show ?thesis by simp
  next
    case False
    define k where "k = first_farthest (\<lambda>p. perpendicular_distance p a b) mid"
    define c where "c = mid ! k"
    have kl: "k < length mid" unfolding k_def using False by (rule first_farthest_less)
    show ?thesis
    proof (cases "perpendicular_distance c a b > eps")
      case True
      have l: "set (douglas_peucker eps a (take k mid) c) \<subseteq> set (take k mid)"
        using 1(1) [OF False k_def c_def True] .
      have r: "set (douglas_peucker eps c (drop (Suc k) mid) b) \<subseteq> set (drop (Suc k) mid)"
        using 1(2) [OF False k_def c_def True] .
      have e: "douglas_peucker eps a mid b =
          douglas_peucker eps a (take k mid) c @ [c] @ douglas_peucker eps c (drop (Suc k) mid) b"
        using False True by (subst douglas_peucker.simps) (simp add: Let_def k_def c_def)
      have "c \<in> set mid" unfolding c_def using kl by simp
      moreover have "set (take k mid) \<subseteq> set mid" by (rule set_take_subset)
      moreover have "set (drop (Suc k) mid) \<subseteq> set mid" by (rule set_drop_subset)
      ultimately show ?thesis using l r unfolding e by auto
    next
      case False
      then have "douglas_peucker eps a mid b = []"
        by (subst douglas_peucker.simps) (simp add: Let_def k_def c_def)
      then show ?thesis by simp
    qed
  qed
qed

lemma douglas_peucker_length: "length (douglas_peucker eps a mid b) \<le> length mid"
proof (induction eps a mid b rule: douglas_peucker.induct)
  case (1 eps a mid b)
  show ?case
  proof (cases "mid = []")
    case True
    then show ?thesis by simp
  next
    case False
    define k where "k = first_farthest (\<lambda>p. perpendicular_distance p a b) mid"
    define c where "c = mid ! k"
    have kl: "k < length mid" unfolding k_def using False by (rule first_farthest_less)
    show ?thesis
    proof (cases "perpendicular_distance c a b > eps")
      case True
      have l: "length (douglas_peucker eps a (take k mid) c) \<le> length (take k mid)"
        using 1(1) [OF False k_def c_def True] .
      have r: "length (douglas_peucker eps c (drop (Suc k) mid) b) \<le> length (drop (Suc k) mid)"
        using 1(2) [OF False k_def c_def True] .
      have e: "douglas_peucker eps a mid b =
          douglas_peucker eps a (take k mid) c @ [c] @ douglas_peucker eps c (drop (Suc k) mid) b"
        using False True by (subst douglas_peucker.simps) (simp add: Let_def k_def c_def)
      show ?thesis unfolding e using l r kl by simp
    next
      case False
      then have "douglas_peucker eps a mid b = []"
        by (subst douglas_peucker.simps) (simp add: Let_def k_def c_def)
      then show ?thesis by simp
    qed
  qed
qed

lemma douglas_peucker_idem:
  "douglas_peucker eps a (douglas_peucker eps a mid b) b = douglas_peucker eps a mid b"
proof (induction eps a mid b rule: douglas_peucker.induct)
  case (1 eps a mid b)
  show ?case
  proof (cases "mid = []")
    case True
    then show ?thesis by simp
  next
    case False
    let ?f = "\<lambda>p. perpendicular_distance p a b"
    define k where "k = first_farthest ?f mid"
    define c where "c = mid ! k"
    have kl: "k < length mid" unfolding k_def using False by (rule first_farthest_less)
    show ?thesis
    proof (cases "perpendicular_distance c a b > eps")
      case True
      define L where "L = douglas_peucker eps a (take k mid) c"
      define R where "R = douglas_peucker eps c (drop (Suc k) mid) b"
      have l: "douglas_peucker eps a L c = L"
        unfolding L_def using 1(1) [OF False k_def c_def True] .
      have r: "douglas_peucker eps c R b = R"
        unfolding R_def using 1(2) [OF False k_def c_def True] .
      have e: "douglas_peucker eps a mid b = L @ [c] @ R"
        using False True
        by (subst douglas_peucker.simps) (simp add: Let_def k_def c_def L_def R_def)
      have Ls: "set L \<subseteq> set (take k mid)" unfolding L_def by (rule douglas_peucker_subset)
      have Rs: "set R \<subseteq> set mid"
        unfolding R_def using douglas_peucker_subset set_drop_subset by fast
      have lt: "\<forall>y \<in> set L. ?f y < ?f c"
        using Ls first_farthest_before [OF False, of _ ?f] unfolding k_def c_def by blast
      have le: "\<forall>y \<in> set R. ?f y \<le> ?f c"
        using Rs first_farthest_max [OF False, of _ ?f] unfolding k_def c_def by blast
      have kk: "first_farthest ?f (L @ c # R) = length L"
        using lt le by (rule first_farthest_unique)
      have "douglas_peucker eps a (L @ c # R) b =
              douglas_peucker eps a L c @ [c] @ douglas_peucker eps c R b"
        using True by (subst douglas_peucker.simps) (simp add: Let_def kk)
      then show ?thesis unfolding e by (simp add: l r)
    next
      case False
      then have "douglas_peucker eps a mid b = []"
        by (subst douglas_peucker.simps) (simp add: Let_def k_def c_def)
      then show ?thesis by simp
    qed
  qed
qed

lemma douglas_peucker_mono:
  "e1 \<le> e2 \<Longrightarrow> length (douglas_peucker e2 a mid b) \<le> length (douglas_peucker e1 a mid b)"
proof (induction e1 a mid b rule: douglas_peucker.induct)
  case (1 e1 a mid b)
  show ?case
  proof (cases "mid = []")
    case True
    then show ?thesis by simp
  next
    case False
    let ?f = "\<lambda>p. perpendicular_distance p a b"
    define k where "k = first_farthest ?f mid"
    define c where "c = mid ! k"
    show ?thesis
    proof (cases "perpendicular_distance c a b > e2")
      case True
      with 1(3) have T1: "perpendicular_distance c a b > e1" by simp
      have l: "length (douglas_peucker e2 a (take k mid) c) \<le> length (douglas_peucker e1 a (take k mid) c)"
        using 1(1) [OF False k_def c_def T1 1(3)] .
      have r: "length (douglas_peucker e2 c (drop (Suc k) mid) b) \<le> length (douglas_peucker e1 c (drop (Suc k) mid) b)"
        using 1(2) [OF False k_def c_def T1 1(3)] .
      have e1: "douglas_peucker e1 a mid b =
          douglas_peucker e1 a (take k mid) c @ [c] @ douglas_peucker e1 c (drop (Suc k) mid) b"
        using False T1 by (subst douglas_peucker.simps) (simp add: Let_def k_def c_def)
      have e2: "douglas_peucker e2 a mid b =
          douglas_peucker e2 a (take k mid) c @ [c] @ douglas_peucker e2 c (drop (Suc k) mid) b"
        using False True by (subst douglas_peucker.simps) (simp add: Let_def k_def c_def)
      show ?thesis unfolding e1 e2 using l r by simp
    next
      case False
      then have "douglas_peucker e2 a mid b = []"
        by (subst douglas_peucker.simps) (simp add: Let_def k_def c_def)
      then show ?thesis by simp
    qed
  qed
qed


lemma simplify_coords_idem:
  "simplify_coords (simplify_coords points eps) eps = simplify_coords points eps"
proof (cases "length points < 3")
  case True
  then show ?thesis by (simp add: simplify_coords_def)
next
  case False
  define a where "a = hd points"
  define b where "b = last points"
  define D where "D = douglas_peucker eps a (butlast (tl points)) b"
  have e: "simplify_coords points eps = a # D @ [b]"
    using False by (simp add: simplify_coords_def a_def b_def D_def)
  show ?thesis
  proof (cases "D = []")
    case True
    then show ?thesis unfolding e by (simp add: simplify_coords_def)
  next
    case False
    then have "\<not> length (a # D @ [b]) < 3" by (cases D) simp_all
    moreover have "douglas_peucker eps a D b = D"
      unfolding D_def by (rule douglas_peucker_idem)
    ultimately show ?thesis unfolding e by (simp add: simplify_coords_def)
  qed
qed

lemma perpendicular_distance_example: "perpendicular_distance (1, 1) (0, 0) (2, 0) = 1"
proof -
  have "sqrt 4 = 2" using real_sqrt_abs [of 2] by simp
  then show ?thesis by (simp add: perpendicular_distance_def Let_def)
qed

lemma simplify_path_example_keep: "simplify_path \<lparr> epsilon = 1 / 2, letter_height_m = 20 \<rparr> [(0, 0), (1, 1), (2, 0)]
     = [(0, 0), (1, 1), (2, 0)]"
  by (simp add: simplify_path_def simplify_coords_def douglas_peucker.simps perpendicular_distance_example Let_def)

lemma simplify_path_example_drop: "simplify_path \<lparr> epsilon = 2, letter_height_m = 20 \<rparr> [(0, 0), (1, 1), (2, 0)]
     = [(0, 0), (2, 0)]"
  by (simp add: simplify_path_def simplify_coords_def douglas_peucker.simps perpendicular_distance_example Let_def)

lemma simplify_path_idem:
  "simplify_path self (simplify_path self points) = simplify_path self points"
proof (cases "length points < 3")
  case True
  then show ?thesis by (simp add: simplify_path_def)
next
  case False
  have "simplify_path self (simplify_coords points (epsilon self))
          = simplify_coords points (epsilon self)"
  proof (cases "length (simplify_coords points (epsilon self)) < 3")
    case True
    then show ?thesis by (simp add: simplify_path_def)
  next
    case False
    then show ?thesis by (simp add: simplify_path_def simplify_coords_idem)
  qed
  with False show ?thesis by (simp add: simplify_path_def)
qed

text \<open>
  C6. For a polyline of at least 2 points and an epsilon that is not negative,
  the output of \<open>simplify_path\<close> is not empty, begins with the first point of the
  input, ends with its last point, and has no more points than the input.
\<close>

theorem simplify_path_endpoints_and_length:
  assumes "2 \<le> length points" and "0 \<le> epsilon self"
  shows "simplify_path self points \<noteq> []
         \<and> hd (simplify_path self points) = hd points
         \<and> last (simplify_path self points) = last points
         \<and> length (simplify_path self points) \<le> length points"
proof (cases "length points < 3")
  case True
  with assms show ?thesis by (auto simp add: simplify_path_def)
next
  case False
  have "length (douglas_peucker (epsilon self) (hd points) (butlast (tl points)) (last points))
          \<le> length (butlast (tl points))"
    by (rule douglas_peucker_length)
  with False show ?thesis by (simp add: simplify_path_def simplify_coords_def)
qed

theorem simplify_path_endpoints_and_length_witness:
  "(2::nat) \<le> length [(0, 0), (1, 1), (2, 0 :: real)]
   \<and> (0::real) \<le> epsilon \<lparr> epsilon = 2, letter_height_m = 20 \<rparr>
   \<and> simplify_path \<lparr> epsilon = 2, letter_height_m = 20 \<rparr> [(0, 0), (1, 1), (2, 0)]
       = [(0, 0), (2, 0)]
   \<and> hd (simplify_path \<lparr> epsilon = 2, letter_height_m = 20 \<rparr> [(0, 0), (1, 1), (2, 0)])
       = hd [(0, 0), (1, 1), (2, 0)]
   \<and> last (simplify_path \<lparr> epsilon = 2, letter_height_m = 20 \<rparr> [(0, 0), (1, 1), (2, 0)])
       = last [(0, 0), (1, 1), (2, 0)]
   \<and> length (simplify_path \<lparr> epsilon = 2, letter_height_m = 20 \<rparr> [(0, 0), (1, 1), (2, 0)])
       \<le> length [(0, 0), (1, 1), (2, 0 :: real)]"
  using simplify_path_endpoints_and_length
          [of "[(0, 0), (1, 1), (2, 0)]" "\<lparr> epsilon = 2, letter_height_m = 20 \<rparr>"]
        simplify_path_example_drop
  by simp

text \<open>
  C7. For every polyline and every epsilon that is not negative, applying
  \<open>simplify_path\<close> to its own output returns that output.
\<close>

theorem simplify_path_idempotent:
  assumes "0 \<le> epsilon self"
  shows "simplify_path self (simplify_path self points) = simplify_path self points"
  by (rule simplify_path_idem)

theorem simplify_path_idempotent_witness:
  "(0::real) \<le> epsilon \<lparr> epsilon = 2, letter_height_m = 20 \<rparr>
   \<and> simplify_path \<lparr> epsilon = 2, letter_height_m = 20 \<rparr> [(0, 0), (1, 1), (2, 0)]
       = [(0, 0), (2, 0)]
   \<and> simplify_path \<lparr> epsilon = 2, letter_height_m = 20 \<rparr>
         (simplify_path \<lparr> epsilon = 2, letter_height_m = 20 \<rparr> [(0, 0), (1, 1), (2, 0)])
       = simplify_path \<lparr> epsilon = 2, letter_height_m = 20 \<rparr> [(0, 0), (1, 1), (2, 0)]"
  using simplify_path_idempotent
          [of "\<lparr> epsilon = 2, letter_height_m = 20 \<rparr>" "[(0, 0), (1, 1), (2, 0)]"]
        simplify_path_example_drop
  by simp

text \<open>
  C8. For a fixed polyline and two simplifiers whose epsilons are \<open>e1 \<le> e2\<close>, the
  output at \<open>e2\<close> has no more points than the output at \<open>e1\<close>.
\<close>

theorem simplify_path_monotone:
  assumes "epsilon s1 \<le> epsilon s2"
  shows "length (simplify_path s2 points) \<le> length (simplify_path s1 points)"
  using douglas_peucker_mono [OF assms]
  by (simp add: simplify_path_def simplify_coords_def)

theorem simplify_path_monotone_witness:
  "epsilon \<lparr> epsilon = 1 / 2, letter_height_m = 20 \<rparr>
     \<le> epsilon \<lparr> epsilon = 2, letter_height_m = 20 \<rparr>
   \<and> simplify_path \<lparr> epsilon = 1 / 2, letter_height_m = 20 \<rparr> [(0, 0), (1, 1), (2, 0)]
       = [(0, 0), (1, 1), (2, 0)]
   \<and> simplify_path \<lparr> epsilon = 2, letter_height_m = 20 \<rparr> [(0, 0), (1, 1), (2, 0)]
       = [(0, 0), (2, 0)]
   \<and> length (simplify_path \<lparr> epsilon = 2, letter_height_m = 20 \<rparr> [(0, 0), (1, 1), (2, 0)])
       \<le> length (simplify_path \<lparr> epsilon = 1 / 2, letter_height_m = 20 \<rparr>
                   [(0, 0), (1, 1), (2, 0)])"
  using simplify_path_monotone
          [of "\<lparr> epsilon = 1 / 2, letter_height_m = 20 \<rparr>"
              "\<lparr> epsilon = 2, letter_height_m = 20 \<rparr>" "[(0, 0), (1, 1), (2, 0)]"]
        simplify_path_example_keep simplify_path_example_drop
  by simp

section \<open>Properties of the stroke ordering\<close>

declare nearest_loop.simps [simp del]
declare order_strokes_loop.simps [simp del]

lemma first_nearest_less: "xs \<noteq> [] \<Longrightarrow> first_nearest f xs < length xs"
proof (induction xs)
  case Nil
  then show ?case by simp
next
  case (Cons x xs)
  then show ?case by (cases "xs = []") auto
qed

lemma first_nearest_min:
  "xs \<noteq> [] \<Longrightarrow> y \<in> set xs \<Longrightarrow> f (xs ! first_nearest f xs) \<le> f y"
proof (induction xs arbitrary: y)
  case Nil
  then show ?case by simp
next
  case (Cons x xs)
  show ?case
  proof (cases "\<forall>z \<in> set xs. f x \<le> f z")
    case True
    with Cons.prems show ?thesis by auto
  next
    case False
    then obtain z where z: "z \<in> set xs" "f z < f x" by force
    then have ne: "xs \<noteq> []" by auto
    have ff: "first_nearest f (x # xs) = Suc (first_nearest f xs)" using False by simp
    have "f (xs ! first_nearest f xs) \<le> f z" using Cons.IH [OF ne z(1)] .
    with z have "f (xs ! first_nearest f xs) \<le> f x" by simp
    moreover have "y \<in> set xs \<Longrightarrow> f (xs ! first_nearest f xs) \<le> f y"
      using Cons.IH [OF ne] .
    ultimately show ?thesis using Cons.prems unfolding ff by auto
  qed
qed

lemma first_nearest_before:
  "xs \<noteq> [] \<Longrightarrow> y \<in> set (take (first_nearest f xs) xs) \<Longrightarrow>
     f (xs ! first_nearest f xs) < f y"
proof (induction xs arbitrary: y)
  case Nil
  then show ?case by simp
next
  case (Cons x xs)
  show ?case
  proof (cases "\<forall>z \<in> set xs. f x \<le> f z")
    case True
    with Cons.prems show ?thesis by simp
  next
    case False
    then obtain z where z: "z \<in> set xs" "f z < f x" by force
    then have ne: "xs \<noteq> []" by auto
    have ff: "first_nearest f (x # xs) = Suc (first_nearest f xs)" using False by simp
    have "f (xs ! first_nearest f xs) \<le> f z" using first_nearest_min [OF ne z(1)] .
    with z have "f (xs ! first_nearest f xs) < f x" by simp
    moreover have "y \<in> set (take (first_nearest f xs) xs) \<Longrightarrow> f (xs ! first_nearest f xs) < f y"
      using Cons.IH [OF ne] .
    moreover have "y = x \<or> y \<in> set (take (first_nearest f xs) xs)"
      using Cons.prems(2) unfolding ff by simp
    ultimately show ?thesis unfolding ff by auto
  qed
qed

lemma scan_remaining_step:
  assumes "path \<noteq> []"
  shows "scan_remaining cur i (path # rest) (md, nidx) =
     scan_remaining cur (Suc i) rest
       (if less_than_min (endpoint_distance cur path) md
        then (Some (endpoint_distance cur path),
              if point_distance cur (last path) < point_distance cur (hd path)
              then - int i - 1 else int i)
        else (md, nidx))"
  using assms by (simp add: endpoint_distance_def Let_def min_def)

lemma scan_remaining_result:
  assumes "\<forall>s \<in> set rest. s \<noteq> []"
  shows "scan_remaining cur i rest (md, nidx) =
     Inr (if \<exists>s \<in> set rest. less_than_min (endpoint_distance cur s) md
          then (Some (endpoint_distance cur (rest ! first_nearest (endpoint_distance cur) rest)),
                if point_distance cur (last (rest ! first_nearest (endpoint_distance cur) rest))
                   < point_distance cur (hd (rest ! first_nearest (endpoint_distance cur) rest))
                then - int (i + first_nearest (endpoint_distance cur) rest) - 1
                else int (i + first_nearest (endpoint_distance cur) rest))
          else (md, nidx))"
  using assms
proof (induction rest arbitrary: i md nidx)
  case Nil
  then show ?case by simp
next
  case (Cons path rest)
  let ?f = "endpoint_distance cur"
  from Cons.prems have pne: "path \<noteq> []" and rne: "\<forall>s \<in> set rest. s \<noteq> []" by simp_all
  note step = scan_remaining_step [OF pne, of cur i rest md nidx]
  let ?code = "if point_distance cur (last path) < point_distance cur (hd path)
               then - int i - 1 else int i"
  show ?case
  proof (cases "less_than_min (?f path) md")
    case True
    have st: "scan_remaining cur i (path # rest) (md, nidx) =
                scan_remaining cur (Suc i) rest (Some (?f path), ?code)"
      using True by (simp only: step if_True)
    show ?thesis
    proof (cases "\<exists>s \<in> set rest. ?f s < ?f path")
      case T2: True
      then have nf: "\<not> (\<forall>y \<in> set rest. ?f path \<le> ?f y)" by force
      show ?thesis unfolding st Cons.IH [OF rne] using True T2 nf
        by (simp del: scan_remaining.simps)
    next
      case F2: False
      then have nf: "\<forall>y \<in> set rest. ?f path \<le> ?f y" by force
      show ?thesis unfolding st Cons.IH [OF rne] using True F2 nf
        by (simp del: scan_remaining.simps)
    qed
  next
    case False
    then obtain m where m: "md = Some m" "m \<le> ?f path" by (cases md) auto
    have st: "scan_remaining cur i (path # rest) (md, nidx) =
                scan_remaining cur (Suc i) rest (md, nidx)"
      using False by (simp only: step if_False)
    show ?thesis
    proof (cases "\<exists>s \<in> set rest. ?f s < m")
      case T2: True
      then have nf: "\<not> (\<forall>y \<in> set rest. ?f path \<le> ?f y)" using m by force
      show ?thesis unfolding st Cons.IH [OF rne] using False T2 nf m
        by (simp del: scan_remaining.simps)
    next
      case F2: False
      show ?thesis unfolding st Cons.IH [OF rne] using False F2 m
        by (simp del: scan_remaining.simps)
    qed
  qed
qed

lemma scan_remaining_from_start:
  assumes "remaining \<noteq> []" and "\<forall>s \<in> set remaining. s \<noteq> []"
  shows "scan_remaining cur 0 remaining (None, 0) =
     Inr (Some (endpoint_distance cur (remaining ! first_nearest (endpoint_distance cur) remaining)),
          if point_distance cur (last (remaining ! first_nearest (endpoint_distance cur) remaining))
             < point_distance cur (hd (remaining ! first_nearest (endpoint_distance cur) remaining))
          then - int (first_nearest (endpoint_distance cur) remaining) - 1
          else int (first_nearest (endpoint_distance cur) remaining))"
proof -
  from assms(1) have "\<exists>s \<in> set remaining. less_than_min (endpoint_distance cur s) None"
    by (cases remaining) auto
  then show ?thesis
    unfolding scan_remaining_result [OF assms(2)] by (simp del: scan_remaining.simps)
qed

lemma set_pop_subset: "set (pop k xs) \<subseteq> set xs"
  unfolding pop_def using set_take_subset [of k xs] set_drop_subset [of "Suc k" xs] by auto

lemma mset_pop: "k < length xs \<Longrightarrow> add_mset (xs ! k) (mset (pop k xs)) = mset xs"
proof -
  assume "k < length xs"
  then have "xs = take k xs @ xs ! k # drop (Suc k) xs" by (rule id_take_nth_drop)
  then have "mset xs = mset (take k xs @ xs ! k # drop (Suc k) xs)" by simp
  then show ?thesis by (simp add: pop_def)
qed

lemma nearest_loop_step:
  assumes "remaining \<noteq> []" and "last ordered \<noteq> []"
    and "scan_remaining (last (last ordered)) 0 remaining (None, 0) = Inr (md, idx)"
  shows "nearest_loop ordered remaining =
     (if idx < 0
      then (if nat (- idx - 1) < length remaining
            then nearest_loop (ordered @ [rev (remaining ! nat (- idx - 1))])
                   (pop (nat (- idx - 1)) remaining)
            else Inl IndexError)
      else (if nat idx < length remaining
            then nearest_loop (ordered @ [remaining ! nat idx]) (pop (nat idx) remaining)
            else Inl IndexError))"
  by (subst nearest_loop.simps) (simp only: assms if_False Let_def sum.case prod.case)

lemma order_strokes_loop_step:
  assumes "remaining \<noteq> []"
  shows "order_strokes_loop placed remaining =
     order_strokes_loop
       (placed @ [if point_distance (last (last placed))
                       (last (remaining ! first_nearest (endpoint_distance (last (last placed))) remaining))
                     < point_distance (last (last placed))
                       (hd (remaining ! first_nearest (endpoint_distance (last (last placed))) remaining))
                  then rev (remaining ! first_nearest (endpoint_distance (last (last placed))) remaining)
                  else remaining ! first_nearest (endpoint_distance (last (last placed))) remaining])
       (pop (first_nearest (endpoint_distance (last (last placed))) remaining) remaining)"
  by (subst order_strokes_loop.simps) (simp only: assms if_False Let_def)

lemma length_pop: "k < length xs \<Longrightarrow> length (pop k xs) = length xs - 1"
  by (simp add: pop_def)

lemma nearest_loop_refines:
  assumes "\<forall>s \<in> set ordered. s \<noteq> []" and "\<forall>s \<in> set remaining. s \<noteq> []"
    and "ordered \<noteq> []"
  shows "nearest_loop ordered remaining = Inr (order_strokes_loop ordered remaining)"
  using assms
proof (induction n \<equiv> "length remaining" arbitrary: ordered remaining)
  case 0
  then have "remaining = []" by simp
  then show ?case by (simp add: nearest_loop.simps order_strokes_loop.simps)
next
  case (Suc n)
  from Suc.hyps(2) have ne: "remaining \<noteq> []" by auto
  define cur where "cur = last (last ordered)"
  define k where "k = first_nearest (endpoint_distance cur) remaining"
  define s where "s = remaining ! k"
  define r where "r \<longleftrightarrow> point_distance cur (last s) < point_distance cur (hd s)"
  define s' where "s' = (if r then rev s else s)"
  have kl: "k < length remaining" unfolding k_def using ne by (rule first_nearest_less)
  then have "s \<in> set remaining" unfolding s_def by simp
  with Suc.prems(2) have sne: "s \<noteq> []" by blast
  then have s'ne: "s' \<noteq> []" unfolding s'_def by simp
  have lne: "last ordered \<noteq> []" using Suc.prems(1,3) by simp
  have scan: "scan_remaining (last (last ordered)) 0 remaining (None, 0) =
       Inr (Some (endpoint_distance cur s), if r then - int k - 1 else int k)"
    unfolding s_def k_def r_def cur_def by (rule scan_remaining_from_start [OF ne Suc.prems(2)])
  have p2: "\<forall>t \<in> set (ordered @ [s']). t \<noteq> []" using Suc.prems(1) s'ne by simp
  have p3: "\<forall>t \<in> set (pop k remaining). t \<noteq> []"
  proof
    fix t assume "t \<in> set (pop k remaining)"
    then have "t \<in> set remaining" using set_pop_subset [of k remaining] by blast
    with Suc.prems(2) show "t \<noteq> []" by blast
  qed
  have len: "n = length (pop k remaining)" using Suc.hyps(2) kl by (simp add: length_pop)
  have IH: "nearest_loop (ordered @ [s']) (pop k remaining)
              = Inr (order_strokes_loop (ordered @ [s']) (pop k remaining))"
    using Suc.hyps(1) [OF len p2 p3] by simp
  have spec: "order_strokes_loop ordered remaining
                = order_strokes_loop (ordered @ [s']) (pop k remaining)"
    unfolding s'_def r_def s_def k_def cur_def by (rule order_strokes_loop_step [OF ne])
  have code: "nearest_loop ordered remaining = nearest_loop (ordered @ [s']) (pop k remaining)"
  proof (cases r)
    case True
    have n: "nat (- (- int k - 1) - 1) = k" by simp
    have "- int k - 1 < 0" by simp
    with nearest_loop_step [OF ne lne scan] True kl n show ?thesis
      by (simp only: if_True s'_def s_def)
  next
    case False
    have "\<not> int k < 0" by simp
    with nearest_loop_step [OF ne lne scan] False kl show ?thesis
      by (simp only: if_False if_True nat_int s'_def s_def)
  qed
  show ?case unfolding code spec by (rule IH)
qed

lemma order_strokes_loop_permutes:
  "\<exists>qs fs. order_strokes_loop placed remaining
             = placed @ map2 (\<lambda>r s. if r then rev s else s) fs qs
           \<and> mset qs = mset remaining \<and> length fs = length qs"
proof (induction n \<equiv> "length remaining" arbitrary: placed remaining)
  case 0
  then have "remaining = []" by simp
  then have "order_strokes_loop placed remaining
               = placed @ map2 (\<lambda>r s. if r then rev s else s) [] []
             \<and> mset [] = mset remaining \<and> length ([]::bool list) = length ([]::stroke list)"
    by (simp add: order_strokes_loop.simps)
  then show ?case by blast
next
  case (Suc n)
  from Suc.hyps(2) have ne: "remaining \<noteq> []" by auto
  define cur where "cur = last (last placed)"
  define k where "k = first_nearest (endpoint_distance cur) remaining"
  define s where "s = remaining ! k"
  define r where "r \<longleftrightarrow> point_distance cur (last s) < point_distance cur (hd s)"
  define s' where "s' = (if r then rev s else s)"
  have kl: "k < length remaining" unfolding k_def using ne by (rule first_nearest_less)
  have len: "n = length (pop k remaining)" using Suc.hyps(2) kl by (simp add: length_pop)
  from Suc.hyps(1) [OF len, of "placed @ [s']"]
  obtain qs fs where q:
    "order_strokes_loop (placed @ [s']) (pop k remaining)
       = (placed @ [s']) @ map2 (\<lambda>r s. if r then rev s else s) fs qs"
    "mset qs = mset (pop k remaining)" "length fs = length qs" by blast
  have spec: "order_strokes_loop placed remaining
                = order_strokes_loop (placed @ [s']) (pop k remaining)"
    unfolding s'_def r_def s_def k_def cur_def by (rule order_strokes_loop_step [OF ne])
  have "order_strokes_loop placed remaining
          = placed @ map2 (\<lambda>r s. if r then rev s else s) (r # fs) (s # qs)"
    unfolding spec q(1) by (simp add: s'_def)
  moreover have "mset (s # qs) = mset remaining"
    using mset_pop [OF kl] q(2) by (simp add: s_def)
  moreover have "length (r # fs) = length (s # qs)" using q(3) by simp
  ultimately show ?case by blast
qed

lemma sqrt_200_bounds: "14 < sqrt 200" "sqrt 200 < 15"
  by (rule real_less_rsqrt, simp add: power2_eq_square)
     (rule real_less_lsqrt, simp_all add: power2_eq_square)

lemma sqrt_1000_bounds: "31 < sqrt 1000" "sqrt 1000 < 32"
  by (rule real_less_rsqrt, simp add: power2_eq_square)
     (rule real_less_lsqrt, simp_all add: power2_eq_square)

lemma test_paths_order:
  "order_strokes test_paths =
     [[(0, 0), (10, 0), (10, 10)], [(20, 0), (20, 10), (30, 10)], [(40, 10), (40, 0)]]"
  using sqrt_200_bounds sqrt_1000_bounds
  by (simp add: order_strokes_def test_paths_def order_strokes_loop.simps pop_def
        endpoint_distance_def point_distance_def Let_def min_def)

lemma first_nearest_index:
  assumes "remaining \<noteq> []"
  shows "first_nearest f remaining < length remaining
         \<and> (\<forall>j < length remaining. f (remaining ! first_nearest f remaining) \<le> f (remaining ! j))
         \<and> (\<forall>j < first_nearest f remaining.
               f (remaining ! first_nearest f remaining) < f (remaining ! j))"
proof (intro conjI allI impI)
  show kl: "first_nearest f remaining < length remaining"
    using assms by (rule first_nearest_less)
  fix j
  { assume "j < length remaining"
    then have "remaining ! j \<in> set remaining" by simp
    then show "f (remaining ! first_nearest f remaining) \<le> f (remaining ! j)"
      by (rule first_nearest_min [OF assms]) }
  { assume j: "j < first_nearest f remaining"
    with kl have "take (first_nearest f remaining) remaining ! j = remaining ! j"
      and "j < length (take (first_nearest f remaining) remaining)" by simp_all
    then have "remaining ! j \<in> set (take (first_nearest f remaining) remaining)"
      by (metis nth_mem)
    then show "f (remaining ! first_nearest f remaining) < f (remaining ! j)"
      by (rule first_nearest_before [OF assms]) }
qed

lemma nearest_neighbor_order_refines:
  assumes "paths \<noteq> []" and "\<forall>s \<in> set paths. s \<noteq> []"
  shows "nearest_neighbor_order paths = Inr (order_strokes paths)"
proof -
  from assms obtain p ps where p: "paths = p # ps" by (cases paths) auto
  with assms(2) have "\<forall>s \<in> set [p]. s \<noteq> []" "\<forall>s \<in> set ps. s \<noteq> []" by simp_all
  then have "nearest_loop [p] ps = Inr (order_strokes_loop [p] ps)"
    by (rule nearest_loop_refines) simp
  then show ?thesis by (simp add: nearest_neighbor_order_def order_strokes_def p)
qed

lemma optimize_stroke_order_refines:
  assumes "paths \<noteq> []" and "\<forall>s \<in> set paths. s \<noteq> []"
  shows "optimize_stroke_order paths ''nearest_neighbor'' = Inr (order_strokes paths)"
proof (cases "length paths \<le> 1")
  case True
  with assms(1) obtain p where "paths = [p]" by (cases paths) auto
  then show ?thesis
    by (simp add: optimize_stroke_order_def order_strokes_def order_strokes_loop.simps)
next
  case False
  then show ?thesis
    using nearest_neighbor_order_refines [OF assms] by (simp add: optimize_stroke_order_def)
qed

lemma order_strokes_hd:
  assumes "paths \<noteq> []"
  shows "hd (order_strokes paths) = hd paths"
proof -
  from order_strokes_loop_permutes [of "[hd paths]" "tl paths"]
  obtain qs fs where "order_strokes_loop [hd paths] (tl paths)
      = [hd paths] @ map2 (\<lambda>r s. if r then rev s else s) fs qs" by blast
  with assms show ?thesis by (simp add: order_strokes_def)
qed

lemma map2_no_reversal: "map2 (\<lambda>r s. if r then rev s else s) (replicate (length xs) False) xs = xs"
  by (induction xs) simp_all

lemma nearest_neighbor_order_permutes:
  assumes "\<forall>s \<in> set paths. s \<noteq> []"
  shows "\<exists>out qs fs. nearest_neighbor_order paths = Inr out
           \<and> out = map2 (\<lambda>r s. if r then rev s else s) fs qs
           \<and> mset qs = mset paths \<and> length fs = length qs"
proof (cases "paths = []")
  case True
  then have "nearest_neighbor_order paths = Inr []
      \<and> [] = map2 (\<lambda>r s. if r then rev s else s) [] ([]::stroke list)
      \<and> mset [] = mset paths \<and> length ([]::bool list) = length ([]::stroke list)"
    by (simp add: nearest_neighbor_order_def)
  then show ?thesis by blast
next
  case False
  then obtain p ps where p: "paths = p # ps" by (cases paths) auto
  from order_strokes_loop_permutes [of "[p]" ps]
  obtain qs fs where q: "order_strokes_loop [p] ps
      = [p] @ map2 (\<lambda>r s. if r then rev s else s) fs qs"
    "mset qs = mset ps" "length fs = length qs" by blast
  have "nearest_neighbor_order paths = Inr (order_strokes paths)"
    using False assms by (rule nearest_neighbor_order_refines)
  then have "nearest_neighbor_order paths
               = Inr (map2 (\<lambda>r s. if r then rev s else s) (False # fs) (p # qs))"
    using q(1) by (simp add: order_strokes_def p)
  moreover have "mset (p # qs) = mset paths" using q(2) p by simp
  moreover have "length (False # fs) = length (p # qs)" using q(3) by simp
  ultimately show ?thesis by blast
qed

lemma optimize_stroke_order_permutes:
  assumes "\<forall>s \<in> set paths. s \<noteq> []"
  shows "\<exists>out qs fs. optimize_stroke_order paths method = Inr out
           \<and> out = map2 (\<lambda>r s. if r then rev s else s) fs qs
           \<and> mset qs = mset paths \<and> length fs = length qs"
proof (cases "\<not> (method = ''original'' \<or> length paths \<le> 1) \<and> method = ''nearest_neighbor''")
  case True
  then have "optimize_stroke_order paths method = nearest_neighbor_order paths"
    by (simp add: optimize_stroke_order_def)
  then show ?thesis using nearest_neighbor_order_permutes [OF assms] by simp
next
  case False
  then have "optimize_stroke_order paths method = Inr paths"
    by (auto simp add: optimize_stroke_order_def)
  then have "optimize_stroke_order paths method = Inr paths
      \<and> paths = map2 (\<lambda>r s. if r then rev s else s) (replicate (length paths) False) paths
      \<and> mset paths = mset paths \<and> length (replicate (length paths) False) = length paths"
    by (simp add: map2_no_reversal)
  then show ?thesis by blast
qed

lemma test_paths_nearest:
  "nearest_neighbor_order test_paths =
     Inr [[(0, 0), (10, 0), (10, 10)], [(20, 0), (20, 10), (30, 10)], [(40, 10), (40, 0)]]"
proof -
  have "nearest_neighbor_order test_paths = Inr (order_strokes test_paths)"
    by (rule nearest_neighbor_order_refines) (simp_all add: test_paths_def)
  then show ?thesis by (simp only: test_paths_order)
qed

text \<open>
  C5. For a non-empty list of non-empty strokes, the ordering computed by the
  code is the ordering of the specification (\<open>order_strokes\<close>): it begins with the
  first stroke, and at every step it appends the remaining stroke of index
  \<open>first_nearest\<close>, reversed exactly when its end point is strictly nearer to the
  end of the last placed stroke than its start point. That index is in range,
  its stroke has the least endpoint distance among all remaining strokes, and
  every stroke before it is strictly farther: ties go to the stroke met first.
\<close>

theorem nearest_neighbor_order_is_greedy:
  assumes "paths \<noteq> []" and "\<forall>s \<in> set paths. s \<noteq> []"
  shows "nearest_neighbor_order paths = Inr (order_strokes paths)
         \<and> optimize_stroke_order paths ''nearest_neighbor'' = Inr (order_strokes paths)
         \<and> hd (order_strokes paths) = hd paths
         \<and> (remaining \<noteq> [] \<longrightarrow>
              first_nearest (endpoint_distance cur) remaining < length remaining
              \<and> (\<forall>j < length remaining.
                    endpoint_distance cur (remaining ! first_nearest (endpoint_distance cur) remaining)
                      \<le> endpoint_distance cur (remaining ! j))
              \<and> (\<forall>j < first_nearest (endpoint_distance cur) remaining.
                    endpoint_distance cur (remaining ! first_nearest (endpoint_distance cur) remaining)
                      < endpoint_distance cur (remaining ! j)))"
  using nearest_neighbor_order_refines [OF assms] optimize_stroke_order_refines [OF assms]
        order_strokes_hd [OF assms(1)] first_nearest_index [of remaining "endpoint_distance cur"]
  by blast

theorem nearest_neighbor_order_is_greedy_witness:
  "test_paths \<noteq> [] \<and> [] \<notin> set test_paths
   \<and> nearest_neighbor_order test_paths =
       Inr [[(0, 0), (10, 0), (10, 10)], [(20, 0), (20, 10), (30, 10)], [(40, 10), (40, 0)]]
   \<and> optimize_stroke_order test_paths ''nearest_neighbor'' =
       Inr [[(0, 0), (10, 0), (10, 10)], [(20, 0), (20, 10), (30, 10)], [(40, 10), (40, 0)]]
   \<and> tl test_paths \<noteq> []
   \<and> first_nearest (endpoint_distance (10, 10)) (tl test_paths) < length (tl test_paths)"
proof -
  have a: "test_paths \<noteq> []" and b: "\<forall>s \<in> set test_paths. s \<noteq> []" and c: "tl test_paths \<noteq> []"
    by (simp_all add: test_paths_def)
  have d: "[] \<notin> set test_paths" by (simp add: test_paths_def)
  from nearest_neighbor_order_is_greedy [OF a b, of "tl test_paths" "(10, 10)"] a c d
  show ?thesis by (simp only: test_paths_order) blast
qed

text \<open>
  C10. For a list of non-empty strokes, nearest-neighbor ordering returns a list
  \<open>out\<close> that is a rearrangement \<open>qs\<close> of the input strokes (as multisets, every
  stroke as often as in the input) in which each stroke is either kept or
  reversed; the same holds for \<open>optimize_stroke_order\<close> with any method.
\<close>

theorem nearest_neighbor_order_is_reoriented_permutation:
  assumes "\<forall>s \<in> set paths. s \<noteq> []"
  shows "(\<exists>out qs fs. nearest_neighbor_order paths = Inr out
            \<and> out = map2 (\<lambda>r s. if r then rev s else s) fs qs
            \<and> mset qs = mset paths \<and> length fs = length qs)
         \<and> (\<exists>out qs fs. optimize_stroke_order paths method = Inr out
            \<and> out = map2 (\<lambda>r s. if r then rev s else s) fs qs
            \<and> mset qs = mset paths \<and> length fs = length qs)"
  using nearest_neighbor_order_permutes [OF assms] optimize_stroke_order_permutes [OF assms]
  by blast

theorem nearest_neighbor_order_is_reoriented_permutation_witness:
  "[] \<notin> set test_paths
   \<and> (\<exists>out qs fs. nearest_neighbor_order test_paths = Inr out
          \<and> out = map2 (\<lambda>r s. if r then rev s else s) fs qs
          \<and> mset qs = mset test_paths \<and> length fs = length qs)
   \<and> nearest_neighbor_order test_paths =
       Inr (map2 (\<lambda>r s. if r then rev s else s) [False, False, True] test_paths)"
proof -
  have b: "\<forall>s \<in> set test_paths. s \<noteq> []" by (simp add: test_paths_def)
  have c: "nearest_neighbor_order test_paths =
       Inr (map2 (\<lambda>r s. if r then rev s else s) [False, False, True] test_paths)"
    unfolding test_paths_nearest by (simp add: test_paths_def)
  have d: "[] \<notin> set test_paths" by (simp add: test_paths_def)
  from nearest_neighbor_order_is_reoriented_permutation [OF b, of "''nearest_neighbor''"] c d
  show ?thesis by blast
qed

end
